theory Spec2Isabelle
  imports Complex_Main
begin

section \<open>The booking workflow of statePatternExample.ts\<close>

text \<open>
  The file declares four state classes (\<open>CancelledState\<close>, \<open>OpenState\<close>, \<open>BookedState\<close>,
  \<open>PendingState\<close>) behind the interface \<open>AbstractState\<close>, and a class \<open>Context\<close> that holds
  the current state. Objects are kept in an explicit store, because the claims depend on
  which object a context refers to: a reference is the index of the object in the store.
  The only asynchronous ingredient, \<open>setTimeout\<close>, is a queue of pending callbacks with the
  time at which each becomes due; the only source of randomness, \<open>Math.random\<close>, is a
  sequence of values together with the number of values drawn so far.
\<close>

subsection \<open>Data\<close>

type_synonym ref = nat

text \<open>
  A value of TypeScript type \<open>number\<close> as it exists at run time: a field that is declared
  but never assigned reads as \<open>undefined\<close>. Doubles are idealised as reals; nothing below
  depends on rounding.
\<close>

datatype number = Num real | Undefined

text \<open>
  One constructor per class, with the fields the class declares, in the order of the
  source. \<open>PendingState\<close> declares no field: its constructor arguments live on only in the
  closure handed to \<open>setTimeout\<close>.
\<close>

datatype AbstractState =
    CancelledState number ref
  | OpenState ref
  | BookedState number ref
  | PendingState

text \<open>
  The closure \<open>() => { context.setCurrentState(new BookedState(id, context)); }\<close> with the
  two variables it captures, and the time from which it may run.
\<close>

record timer =
  due :: nat
  captured_id :: number
  captured_context :: ref

text \<open>
  \<open>states\<close> holds the state objects and \<open>contexts\<close> the \<open>Context\<close> objects, each of which is
  its single field \<open>currentState\<close>.
\<close>

record world =
  states :: "AbstractState list"
  contexts :: "ref list"
  timers :: "timer list"
  now :: nat
  random_seq :: "nat \<Rightarrow> real"
  random_calls :: nat

subsection \<open>Ambient functions\<close>

definition Math_random :: "world \<Rightarrow> real \<times> world" where
  "Math_random w = (random_seq w (random_calls w), w\<lparr>random_calls := random_calls w + 1\<rparr>)"

definition setTimeout :: "number \<Rightarrow> ref \<Rightarrow> nat \<Rightarrow> world \<Rightarrow> world" where
  "setTimeout i c delay w =
     w\<lparr>timers := timers w @ [\<lparr>due = now w + delay, captured_id = i, captured_context = c\<rparr>]\<rparr>"

text \<open>A template literal \<open>${x}\<close> prints a number with \<open>toStr\<close> and \<open>undefined\<close> by its name.\<close>

fun template :: "(real \<Rightarrow> string) \<Rightarrow> number \<Rightarrow> string" where
  "template toStr (Num x) = toStr x"
| "template toStr Undefined = ''undefined''"

subsection \<open>Class Context\<close>

text \<open>The names of the public methods that class \<open>Context\<close> declares.\<close>

definition Context_methods :: "string list" where
  "Context_methods = [''setCurrentState'']"

definition setCurrentState :: "ref \<Rightarrow> ref \<Rightarrow> world \<Rightarrow> world" where
  "setCurrentState c newState w = w\<lparr>contexts := (contexts w)[c := newState]\<rparr>"

text \<open>Allocation of a state object: it is appended to the store.\<close>

definition alloc :: "AbstractState \<Rightarrow> world \<Rightarrow> ref \<times> world" where
  "alloc s w = (length (states w), w\<lparr>states := states w @ [s]\<rparr>)"

subsection \<open>Constructors of the state classes\<close>

definition new_CancelledState :: "number \<Rightarrow> ref \<Rightarrow> world \<Rightarrow> ref \<times> world" where
  "new_CancelledState oldID c w = alloc (CancelledState oldID c) w"

definition new_OpenState :: "ref \<Rightarrow> world \<Rightarrow> ref \<times> world" where
  "new_OpenState c w = alloc (OpenState c) w"

text \<open>
  The constructor of \<open>BookedState\<close> assigns \<open>this.context\<close> only, so the field \<open>id\<close> of the
  new object is \<open>undefined\<close> whatever the argument \<open>i\<close>.
\<close>

definition new_BookedState :: "number \<Rightarrow> ref \<Rightarrow> world \<Rightarrow> ref \<times> world" where
  "new_BookedState i c w = alloc (BookedState Undefined c) w"

definition BOOKING_DELAY :: nat where
  "BOOKING_DELAY = 10000"

definition new_PendingState :: "number \<Rightarrow> ref \<Rightarrow> world \<Rightarrow> ref \<times> world" where
  "new_PendingState i c w = alloc PendingState (setTimeout i c BOOKING_DELAY w)"

text \<open>
  \<open>new Context()\<close>: the context object exists first (it is \<open>this\<close>), then the \<open>OpenState\<close>
  is built with it and stored in \<open>currentState\<close>.
\<close>

definition new_Context :: "world \<Rightarrow> ref \<times> world" where
  "new_Context w =
     (let c = length (contexts w);
          (s, w1) = new_OpenState c w
      in (c, w1\<lparr>contexts := contexts w1 @ [s]\<rparr>))"

subsection \<open>Methods of the state classes\<close>

definition CancelledState_cancel :: "number \<Rightarrow> ref \<Rightarrow> world \<Rightarrow> string \<times> world" where
  "CancelledState_cancel oldID c w = (''You've already cancelled this!'', w)"

definition CancelledState_book ::
  "(real \<Rightarrow> string) \<Rightarrow> number \<Rightarrow> ref \<Rightarrow> world \<Rightarrow> string \<times> world" where
  "CancelledState_book toStr oldID c w =
     (let (p, w1) = new_PendingState oldID c w;
          w2 = setCurrentState c p w1
      in (''Rebooked using old ID: '' @ template toStr oldID, w2))"

definition OpenState_cancel :: "ref \<Rightarrow> world \<Rightarrow> string \<times> world" where
  "OpenState_cancel c w = (''You haven't booked anything yet'', w)"

definition OpenState_book :: "(real \<Rightarrow> string) \<Rightarrow> ref \<Rightarrow> world \<Rightarrow> string \<times> world" where
  "OpenState_book toStr c w =
     (let (r, w1) = Math_random w;
          i = r * 100;
          (p, w2) = new_PendingState (Num i) c w1;
          w3 = setCurrentState c p w2
      in (''Event booked with id: '' @ template toStr (Num i), w3))"

definition BookedState_cancel :: "number \<Rightarrow> ref \<Rightarrow> world \<Rightarrow> string \<times> world" where
  "BookedState_cancel i c w =
     (let (x, w1) = new_CancelledState i c w;
          w2 = setCurrentState c x w1
      in (''Event cancelled'', w2))"

definition BookedState_book :: "number \<Rightarrow> ref \<Rightarrow> world \<Rightarrow> string \<times> world" where
  "BookedState_book i c w = (''You've already booked this event!'', w)"

definition PendingState_cancel :: "world \<Rightarrow> string \<times> world" where
  "PendingState_cancel w = (''Please wait for booking to load before performing an action!'', w)"

definition PendingState_book :: "world \<Rightarrow> string \<times> world" where
  "PendingState_book w = (''Please wait for booking to load before performing an action!'', w)"

text \<open>
  A call \<open>h.cancel()\<close> or \<open>h.book()\<close> runs the method of the class of the object that \<open>h\<close>
  refers to. A reference to no object has no counterpart in the source; it is \<open>None\<close>.
\<close>

definition cancel :: "ref \<Rightarrow> world \<Rightarrow> (string \<times> world) option" where
  "cancel h w =
     (if h < length (states w) then
        Some (case states w ! h of
                CancelledState oldID c \<Rightarrow> CancelledState_cancel oldID c w
              | OpenState c \<Rightarrow> OpenState_cancel c w
              | BookedState i c \<Rightarrow> BookedState_cancel i c w
              | PendingState \<Rightarrow> PendingState_cancel w)
      else None)"

definition book :: "(real \<Rightarrow> string) \<Rightarrow> ref \<Rightarrow> world \<Rightarrow> (string \<times> world) option" where
  "book toStr h w =
     (if h < length (states w) then
        Some (case states w ! h of
                CancelledState oldID c \<Rightarrow> CancelledState_book toStr oldID c w
              | OpenState c \<Rightarrow> OpenState_book toStr c w
              | BookedState i c \<Rightarrow> BookedState_book i c w
              | PendingState \<Rightarrow> PendingState_book w)
      else None)"

subsection \<open>The timer queue\<close>

text \<open>The body of the closure that the constructor of \<open>PendingState\<close> schedules.\<close>

definition callback :: "timer \<Rightarrow> world \<Rightarrow> world" where
  "callback t w =
     (let (b, w1) = new_BookedState (captured_id t) (captured_context t) w
      in setCurrentState (captured_context t) b w1)"

text \<open>
  One turn of the event loop: the oldest timer runs once its time has come and leaves
  the queue (a timeout fires once). Every timer of this program has the same delay, so
  the oldest timer is also the first to be due.
\<close>

definition fire :: "world \<Rightarrow> world" where
  "fire w =
     (case timers w of
        [] \<Rightarrow> w
      | t # ts \<Rightarrow> if due t \<le> now w then callback t (w\<lparr>timers := ts\<rparr>) else w)"

definition advance :: "nat \<Rightarrow> world \<Rightarrow> world" where
  "advance d w = w\<lparr>now := now w + d\<rparr>"

subsection \<open>Executions\<close>

text \<open>
  What can happen to a context \<open>c\<close>: \<open>book()\<close> or \<open>cancel()\<close> is called on the state object
  that is its current state, time passes, or the event loop takes a turn.
\<close>

datatype event = Book | Cancel | Advance nat | Fire

definition current :: "ref \<Rightarrow> world \<Rightarrow> ref option" where
  "current c w = (if c < length (contexts w) then Some (contexts w ! c) else None)"

fun exec :: "(real \<Rightarrow> string) \<Rightarrow> ref \<Rightarrow> event \<Rightarrow> world \<Rightarrow> world option" where
  "exec toStr c Book w =
     (case current c w of None \<Rightarrow> None | Some h \<Rightarrow> map_option snd (book toStr h w))"
| "exec toStr c Cancel w =
     (case current c w of None \<Rightarrow> None | Some h \<Rightarrow> map_option snd (cancel h w))"
| "exec toStr c (Advance d) w = Some (advance d w)"
| "exec toStr c Fire w = Some (fire w)"

fun run :: "(real \<Rightarrow> string) \<Rightarrow> ref \<Rightarrow> event list \<Rightarrow> world \<Rightarrow> world option" where
  "run toStr c [] w = Some w"
| "run toStr c (e # es) w =
     (case exec toStr c e w of None \<Rightarrow> None | Some w' \<Rightarrow> run toStr c es w')"

text \<open>The program at its start: no object, no timer, time zero.\<close>

definition start :: "(nat \<Rightarrow> real) \<Rightarrow> world" where
  "start rs = \<lparr>states = [], contexts = [], timers = [], now = 0, random_seq = rs, random_calls = 0\<rparr>"

definition isOpen :: "AbstractState \<Rightarrow> bool" where
  "isOpen s = (case s of OpenState c \<Rightarrow> True | _ \<Rightarrow> False)"

text \<open>The object that is the current state of \<open>c\<close>, if \<open>c\<close> is a context and refers to one.\<close>

definition active :: "ref \<Rightarrow> world \<Rightarrow> AbstractState option" where
  "active c w =
     (case current c w of
        None \<Rightarrow> None
      | Some h \<Rightarrow> if h < length (states w) then Some (states w ! h) else None)"

definition open_active :: "ref \<Rightarrow> world \<Rightarrow> bool" where
  "open_active c w = (case active c w of Some (OpenState c') \<Rightarrow> True | _ \<Rightarrow> False)"

text \<open>The world right after \<open>new Context()\<close> at the start of the program.\<close>

definition program_start :: world where
  "program_start = start (\<lambda>n. 42 / 100)"

definition after_new_Context :: world where
  "after_new_Context = snd (new_Context program_start)"

subsection \<open>Predicates used in the proofs\<close>

text \<open>The context \<open>c\<close> exists and its current state refers to an object.\<close>

definition ok :: "ref \<Rightarrow> world \<Rightarrow> bool" where
  "ok c w = (c < length (contexts w) \<and> contexts w ! c < length (states w))"

text \<open>A step kept the current state of \<open>c\<close>, or left \<open>c\<close> in a state that is not Open.\<close>

definition kept :: "ref \<Rightarrow> world \<Rightarrow> world \<Rightarrow> bool" where
  "kept c w w' =
     (contexts w' ! c = contexts w ! c \<and>
      states w' ! (contexts w ! c) = states w ! (contexts w ! c))"

definition left :: "ref \<Rightarrow> world \<Rightarrow> bool" where
  "left c w' = (\<not> isOpen (states w' ! (contexts w' ! c)))"

text \<open>A call of \<open>book()\<close> on \<open>h\<close> draws a random number exactly when \<open>h\<close> is an \<open>OpenState\<close>.\<close>

definition drawn :: "ref \<Rightarrow> ref \<Rightarrow> world \<Rightarrow> world \<Rightarrow> bool" where
  "drawn c h w w' =
     (if isOpen (states w ! h)
      then random_calls w' = random_calls w + 1 \<and> (states w ! h = OpenState c \<longrightarrow> left c w')
      else random_calls w' = random_calls w)"

text \<open>
  \<open>carried\<close>: every callback queued for \<open>c\<close> carries the identifier \<open>d\<close> or the \<open>oldID\<close> of a
  \<open>CancelledState\<close> of \<open>c\<close>. \<open>untimed\<close>: no callback is queued for \<open>c\<close>.
\<close>

definition carried :: "ref \<Rightarrow> number \<Rightarrow> world \<Rightarrow> bool" where
  "carried c d w =
     list_all (\<lambda>t. captured_context t \<noteq> c \<or> captured_id t = d \<or>
                    CancelledState (captured_id t) c \<in> set (states w)) (timers w)"

definition untimed :: "ref \<Rightarrow> world \<Rightarrow> bool" where
  "untimed c w = list_all (\<lambda>t. captured_context t \<noteq> c) (timers w)"

text \<open>The field \<open>context\<close> of a state object; \<open>PendingState\<close> declares none.\<close>

fun context_of :: "AbstractState \<Rightarrow> ref option" where
  "context_of (CancelledState oldID c) = Some c"
| "context_of (OpenState c) = Some c"
| "context_of (BookedState i c) = Some c"
| "context_of PendingState = None"

text \<open>
  A well-formed world: every reference held by a state object, a context or a pending
  callback refers to an object that exists, as every reference of a running program does.
\<close>

fun refs_below :: "nat \<Rightarrow> AbstractState \<Rightarrow> bool" where
  "refs_below n (CancelledState oldID c) = (c < n)"
| "refs_below n (OpenState c) = (c < n)"
| "refs_below n (BookedState i c) = (c < n)"
| "refs_below n PendingState = True"

definition well_formed :: "world \<Rightarrow> bool" where
  "well_formed w =
     (list_all (refs_below (length (contexts w))) (states w) \<and>
      list_all (\<lambda>h. h < length (states w)) (contexts w) \<and>
      list_all (\<lambda>t. captured_context t < length (contexts w)) (timers w))"

subsection \<open>Some worlds the program can reach\<close>

text \<open>
  After \<open>book()\<close> on the fresh context; after a \<open>CancelledState\<close> with identifier 7 was
  installed in the fresh context at time 5; and after a caller has replaced the pending
  state of the first by a \<open>CancelledState\<close> through the public \<open>setCurrentState\<close> and the
  delay has passed.
\<close>

definition after_first_book :: world where
  "after_first_book = snd (OpenState_book (\<lambda>x. ''42'') 0 after_new_Context)"

definition cancelled_world :: world where
  "cancelled_world =
     setCurrentState 0 1 (snd (new_CancelledState (Num 7) 0 (advance 5 after_new_Context)))"

definition superseded :: world where
  "superseded =
     advance 10000 (setCurrentState 0 2 (snd (new_CancelledState (Num 42) 0 after_first_book)))"

section \<open>Properties of the methods\<close>

lemmas model_defs = Math_random_def setTimeout_def setCurrentState_def alloc_def
  new_CancelledState_def new_OpenState_def new_BookedState_def
  new_PendingState_def new_Context_def CancelledState_cancel_def CancelledState_book_def
  OpenState_cancel_def OpenState_book_def BookedState_cancel_def BookedState_book_def
  PendingState_cancel_def PendingState_book_def callback_def

lemma book_OpenState:
  assumes "h < length (states w)" "states w ! h = OpenState c"
  shows "book toStr h w =
    Some (''Event booked with id: '' @ toStr (random_seq w (random_calls w) * 100),
      w\<lparr>states := states w @ [PendingState],
         contexts := (contexts w)[c := length (states w)],
         timers := timers w @ [\<lparr>due = now w + BOOKING_DELAY,
           captured_id = Num (random_seq w (random_calls w) * 100), captured_context = c\<rparr>],
         random_calls := random_calls w + 1\<rparr>)"
  using assms by (simp add: book_def model_defs Let_def)

lemma book_CancelledState:
  assumes "h < length (states w)" "states w ! h = CancelledState oldID c"
  shows "book toStr h w =
    Some (''Rebooked using old ID: '' @ template toStr oldID,
      w\<lparr>states := states w @ [PendingState],
         contexts := (contexts w)[c := length (states w)],
         timers := timers w @ [\<lparr>due = now w + BOOKING_DELAY,
           captured_id = oldID, captured_context = c\<rparr>]\<rparr>)"
  using assms by (simp add: book_def model_defs)

lemma book_BookedState:
  assumes "h < length (states w)" "states w ! h = BookedState i c"
  shows "book toStr h w = Some (''You've already booked this event!'', w)"
  using assms by (simp add: book_def model_defs)

lemma book_PendingState:
  assumes "h < length (states w)" "states w ! h = PendingState"
  shows "book toStr h w =
    Some (''Please wait for booking to load before performing an action!'', w)"
  using assms by (simp add: book_def model_defs)

lemma cancel_CancelledState:
  assumes "h < length (states w)" "states w ! h = CancelledState oldID c"
  shows "cancel h w = Some (''You've already cancelled this!'', w)"
  using assms by (simp add: cancel_def model_defs)

lemma cancel_OpenState:
  assumes "h < length (states w)" "states w ! h = OpenState c"
  shows "cancel h w = Some (''You haven't booked anything yet'', w)"
  using assms by (simp add: cancel_def model_defs)

lemma cancel_BookedState:
  assumes "h < length (states w)" "states w ! h = BookedState i c"
  shows "cancel h w =
    Some (''Event cancelled'',
      w\<lparr>states := states w @ [CancelledState i c],
         contexts := (contexts w)[c := length (states w)]\<rparr>)"
  using assms by (simp add: cancel_def model_defs)

lemma cancel_PendingState:
  assumes "h < length (states w)" "states w ! h = PendingState"
  shows "cancel h w =
    Some (''Please wait for booking to load before performing an action!'', w)"
  using assms by (simp add: cancel_def model_defs)

lemma fire_due:
  assumes "timers w = t # ts" "due t \<le> now w"
  shows "fire w =
    w\<lparr>states := states w @ [BookedState Undefined (captured_context t)],
       contexts := (contexts w)[captured_context t := length (states w)],
       timers := ts\<rparr>"
  using assms by (simp add: fire_def model_defs)

lemma fire_idle:
  assumes "timers w = [] \<or> now w < due (hd (timers w))"
  shows "fire w = w"
  using assms by (auto simp: fire_def split: list.splits)

lemma new_Context_eq:
  "new_Context w =
     (length (contexts w),
      w\<lparr>states := states w @ [OpenState (length (contexts w))],
        contexts := contexts w @ [length (states w)]\<rparr>)"
  by (simp add: model_defs Let_def)


subsection \<open>Invariants of executions\<close>

lemma nth_upd: "c < length xs \<Longrightarrow> xs[k := v] ! c = (if k = c then v else xs ! c)"
  by (cases "k < length xs") (simp_all add: nth_list_update)

lemma ok_active: "ok c w \<Longrightarrow> active c w = Some (states w ! (contexts w ! c))"
  by (simp add: ok_def active_def current_def)

lemma ok_current: "ok c w \<Longrightarrow> current c w = Some (contexts w ! c)"
  by (simp add: ok_def current_def)

lemma ok_new_Context: "new_Context w0 = (c, w) \<Longrightarrow> ok c w"
  by (auto simp: new_Context_eq ok_def nth_append)

lemma book_total:
  assumes "h < length (states w)"
  shows "\<exists>m w'. book toStr h w = Some (m, w')"
  using assms by (cases "states w ! h")
    (simp_all add: book_OpenState book_CancelledState book_BookedState book_PendingState)

lemma cancel_total:
  assumes "h < length (states w)"
  shows "\<exists>m w'. cancel h w = Some (m, w')"
  using assms by (cases "states w ! h")
    (simp_all add: cancel_OpenState cancel_CancelledState cancel_BookedState cancel_PendingState)

lemma ok_book:
  assumes "ok c w" "book toStr h w = Some (m, w')"
  shows "ok c w'"
proof -
  from assms(2) have h: "h < length (states w)"
    by (simp add: book_def split: if_splits)
  show ?thesis
  proof (cases "states w ! h")
    case (CancelledState i c')
    with h assms show ?thesis
      by (auto simp: book_CancelledState ok_def nth_upd)
  next
    case (OpenState c')
    with h assms show ?thesis
      by (auto simp: book_OpenState ok_def nth_upd)
  next
    case (BookedState i c')
    with h assms show ?thesis by (auto simp: book_BookedState)
  next
    case PendingState
    with h assms show ?thesis by (auto simp: book_PendingState)
  qed
qed

lemma ok_cancel:
  assumes "ok c w" "cancel h w = Some (m, w')"
  shows "ok c w'"
proof -
  from assms(2) have h: "h < length (states w)"
    by (simp add: cancel_def split: if_splits)
  show ?thesis
  proof (cases "states w ! h")
    case (CancelledState i c')
    with h assms show ?thesis by (auto simp: cancel_CancelledState)
  next
    case (OpenState c')
    with h assms show ?thesis by (auto simp: cancel_OpenState)
  next
    case (BookedState i c')
    with h assms show ?thesis
      by (auto simp: cancel_BookedState ok_def nth_upd)
  next
    case PendingState
    with h assms show ?thesis by (auto simp: cancel_PendingState)
  qed
qed

lemma ok_fire: "ok c w \<Longrightarrow> ok c (fire w)"
  by (auto simp: fire_def model_defs ok_def nth_upd split: list.splits)

lemma ok_advance: "ok c w \<Longrightarrow> ok c (advance d w)"
  by (simp add: advance_def ok_def)

lemma exec_total:
  assumes "ok c w"
  shows "\<exists>w'. exec toStr c e w = Some w' \<and> ok c w'"
proof (cases e)
  case Book
  from assms have h: "contexts w ! c < length (states w)" by (simp add: ok_def)
  from book_total [OF h] obtain m w' where b: "book toStr (contexts w ! c) w = Some (m, w')"
    by blast
  with assms Book show ?thesis
    by (auto simp: ok_current intro: ok_book)
next
  case Cancel
  from assms have h: "contexts w ! c < length (states w)" by (simp add: ok_def)
  from cancel_total [OF h] obtain m w' where b: "cancel (contexts w ! c) w = Some (m, w')"
    by blast
  with assms Cancel show ?thesis
    by (auto simp: ok_current intro: ok_cancel)
next
  case (Advance d)
  with assms show ?thesis by (simp add: ok_advance)
next
  case Fire
  with assms show ?thesis by (simp add: ok_fire)
qed

lemma run_total:
  assumes "ok c w"
  shows "\<exists>w'. run toStr c es w = Some w' \<and> ok c w'"
  using assms
proof (induction es arbitrary: w)
  case Nil
  then show ?case by simp
next
  case (Cons e es)
  from exec_total [OF Cons.prems] obtain w1 where
    e: "exec toStr c e w = Some w1" and o: "ok c w1" by blast
  from Cons.IH [OF o] e show ?case by simp
qed


text \<open>What is active at \<open>c\<close> after one step: the old object or a freshly built one that is not Open.\<close>

lemma open_active_iff: "ok c w \<Longrightarrow> open_active c w = isOpen (states w ! (contexts w ! c))"
  by (simp add: open_active_def ok_active isOpen_def split: AbstractState.splits)

lemma book_step:
  assumes "ok c w" "book toStr h w = Some (m, w')"
  shows "(kept c w w' \<or> left c w') \<and> drawn c h w w'"
proof -
  from assms(2) have h: "h < length (states w)"
    by (simp add: book_def split: if_splits)
  show ?thesis
  proof (cases "states w ! h")
    case (CancelledState i c')
    with h assms show ?thesis
      by (auto simp: book_CancelledState ok_def nth_upd kept_def left_def drawn_def
            nth_append isOpen_def)
  next
    case (OpenState c')
    with h assms show ?thesis
      by (auto simp: book_OpenState ok_def nth_upd kept_def left_def drawn_def
            nth_append isOpen_def)
  next
    case (BookedState i c')
    with h assms show ?thesis by (auto simp: book_BookedState kept_def drawn_def isOpen_def)
  next
    case PendingState
    with h assms show ?thesis by (auto simp: book_PendingState kept_def drawn_def isOpen_def)
  qed
qed

lemma cancel_step:
  assumes "ok c w" "cancel h w = Some (m, w')"
  shows "(kept c w w' \<or> left c w') \<and> random_calls w' = random_calls w"
proof -
  from assms(2) have h: "h < length (states w)"
    by (simp add: cancel_def split: if_splits)
  show ?thesis
  proof (cases "states w ! h")
    case (CancelledState i c')
    with h assms show ?thesis by (auto simp: cancel_CancelledState kept_def)
  next
    case (OpenState c')
    with h assms show ?thesis by (auto simp: cancel_OpenState kept_def)
  next
    case (BookedState i c')
    with h assms show ?thesis
      by (auto simp: cancel_BookedState ok_def nth_upd kept_def left_def nth_append isOpen_def)
  next
    case PendingState
    with h assms show ?thesis by (auto simp: cancel_PendingState kept_def)
  qed
qed

lemma fire_step:
  assumes "ok c w"
  shows "(kept c w (fire w) \<or> left c (fire w)) \<and> random_calls (fire w) = random_calls w"
  using assms
  by (auto simp: fire_def model_defs ok_def nth_upd kept_def left_def nth_append isOpen_def
           split: list.splits)

text \<open>One step of an execution, seen from context \<open>c\<close>.\<close>

lemma exec_closed:
  assumes "ok c w" "\<not> isOpen (states w ! (contexts w ! c))" "exec toStr c e w = Some w'"
  shows "\<not> isOpen (states w' ! (contexts w' ! c)) \<and> random_calls w' = random_calls w"
proof (cases e)
  case Book
  with assms obtain m where "book toStr (contexts w ! c) w = Some (m, w')"
    by (auto simp: ok_current)
  from book_step [OF assms(1) this] assms(2) show ?thesis
    by (auto simp: kept_def left_def drawn_def)
next
  case Cancel
  with assms obtain m where "cancel (contexts w ! c) w = Some (m, w')"
    by (auto simp: ok_current)
  from cancel_step [OF assms(1) this] assms(2) show ?thesis
    by (auto simp: kept_def left_def)
next
  case (Advance d)
  with assms show ?thesis by (auto simp: advance_def)
next
  case Fire
  with assms fire_step [OF assms(1)] show ?thesis by (auto simp: kept_def left_def)
qed

lemma exec_open:
  assumes "ok c w" "states w ! (contexts w ! c) = OpenState c" "exec toStr c e w = Some w'"
  shows "contexts w' ! c = contexts w ! c \<and> states w' ! (contexts w' ! c) = OpenState c \<and>
           random_calls w' = random_calls w
         \<or> \<not> isOpen (states w' ! (contexts w' ! c)) \<and> random_calls w' \<le> random_calls w + 1"
proof (cases e)
  case Book
  with assms obtain m where "book toStr (contexts w ! c) w = Some (m, w')"
    by (auto simp: ok_current)
  from book_step [OF assms(1) this] assms(2) show ?thesis
    by (auto simp: kept_def left_def drawn_def isOpen_def)
next
  case Cancel
  with assms obtain m where "cancel (contexts w ! c) w = Some (m, w')"
    by (auto simp: ok_current)
  from cancel_step [OF assms(1) this] assms(2) show ?thesis
    by (auto simp: kept_def left_def)
next
  case (Advance d)
  with assms show ?thesis by (auto simp: advance_def)
next
  case Fire
  with assms fire_step [OF assms(1)] show ?thesis by (auto simp: kept_def left_def)
qed

lemma run_closed:
  assumes "ok c w" "\<not> isOpen (states w ! (contexts w ! c))" "run toStr c es w = Some w'"
  shows "\<not> isOpen (states w' ! (contexts w' ! c)) \<and> random_calls w' = random_calls w"
  using assms
proof (induction es arbitrary: w)
  case Nil
  then show ?case by simp
next
  case (Cons e es)
  from exec_total [OF Cons.prems(1)] obtain w1 where
    e: "exec toStr c e w = Some w1" and o: "ok c w1" by blast
  from exec_closed [OF Cons.prems(1,2) e] have
    c1: "\<not> isOpen (states w1 ! (contexts w1 ! c))" and r1: "random_calls w1 = random_calls w"
    by simp_all
  from Cons.prems(3) e have "run toStr c es w1 = Some w'" by simp
  from Cons.IH [OF o c1 this] r1 show ?case by simp
qed

lemma run_open:
  assumes "ok c w" "states w ! (contexts w ! c) = OpenState c" "run toStr c es w = Some w'"
  shows "random_calls w' \<le> random_calls w + 1 \<and>
         (isOpen (states w' ! (contexts w' ! c)) \<longrightarrow>
            contexts w' ! c = contexts w ! c \<and> random_calls w' = random_calls w)"
  using assms
proof (induction es arbitrary: w)
  case Nil
  then show ?case by simp
next
  case (Cons e es)
  from exec_total [OF Cons.prems(1)] obtain w1 where
    e: "exec toStr c e w = Some w1" and o: "ok c w1" by blast
  from Cons.prems(3) e have r: "run toStr c es w1 = Some w'" by simp
  from exec_open [OF Cons.prems(1,2) e] consider
    (stay) "contexts w1 ! c = contexts w ! c" "states w1 ! (contexts w1 ! c) = OpenState c"
           "random_calls w1 = random_calls w"
  | (go) "\<not> isOpen (states w1 ! (contexts w1 ! c))" "random_calls w1 \<le> random_calls w + 1"
    by blast
  then show ?case
  proof cases
    case stay
    from Cons.IH [OF o stay(2) r] stay(1,3) show ?thesis by simp
  next
    case go
    from run_closed [OF o go(1) r] go(2) show ?thesis by simp
  qed
qed


lemmas run_defs = model_defs book_def cancel_def fire_def advance_def current_def active_def
  open_active_def Let_def BOOKING_DELAY_def

lemma run_append:
  "run toStr c (es1 @ es2) w =
     (case run toStr c es1 w of None \<Rightarrow> None | Some w1 \<Rightarrow> run toStr c es2 w1)"
  by (induction es1 arbitrary: w) (auto split: option.splits)

subsection \<open>Well-formed worlds stay well-formed\<close>

lemma list_all_update:
  "list_all P xs \<Longrightarrow> P v \<Longrightarrow> list_all P (xs[i := v])"
  by (auto simp: list_all_iff dest: set_update_subset_insert [THEN subsetD])

lemma list_all_mono: "list_all P xs \<Longrightarrow> (\<And>x. P x \<Longrightarrow> Q x) \<Longrightarrow> list_all Q xs"
  by (auto simp: list_all_iff)

lemma refs_below_mono: "refs_below n s \<Longrightarrow> n \<le> n' \<Longrightarrow> refs_below n' s"
  by (cases s) auto

lemma refs_below_Suc: "refs_below n s \<Longrightarrow> refs_below (Suc n) s"
  by (erule refs_below_mono) simp

lemma wf_context_of:
  assumes "well_formed w" "h < length (states w)" "context_of (states w ! h) = Some c"
  shows "c < length (contexts w)"
proof -
  from assms(2) have "states w ! h \<in> set (states w)" by simp
  with assms(1) have "refs_below (length (contexts w)) (states w ! h)"
    by (simp add: well_formed_def list_all_iff)
  with assms(3) show ?thesis by (cases "states w ! h") auto
qed

lemma wf_install:
  assumes "well_formed w" "c < length (contexts w)"
    "refs_below (length (contexts w)) s"
    "list_all (\<lambda>t. captured_context t < length (contexts w)) ts"
    "states w' = states w @ [s]" "contexts w' = (contexts w)[c := length (states w)]"
    "timers w' = ts"
  shows "well_formed w'"
  using assms
  by (auto simp: well_formed_def intro!: list_all_update elim: list_all_mono)

lemma wf_new_Context:
  assumes "well_formed w0" "new_Context w0 = (c, w)"
  shows "well_formed w"
proof -
  from assms(2) have w: "states w = states w0 @ [OpenState (length (contexts w0))]"
      "contexts w = contexts w0 @ [length (states w0)]" "timers w = timers w0"
    by (auto simp: new_Context_eq)
  from assms(1) have "list_all (refs_below (Suc (length (contexts w0)))) (states w0)"
    by (auto simp: well_formed_def elim!: list_all_mono intro: refs_below_Suc)
  moreover from assms(1) have "list_all (\<lambda>h. h < Suc (length (states w0))) (contexts w0)"
    by (auto simp: well_formed_def elim!: list_all_mono)
  moreover from assms(1)
  have "list_all (\<lambda>t. captured_context t < Suc (length (contexts w0))) (timers w0)"
    by (auto simp: well_formed_def elim!: list_all_mono)
  ultimately show ?thesis by (simp add: well_formed_def w)
qed

lemma wf_book:
  assumes "well_formed w" "book toStr h w = Some (m, w')"
  shows "well_formed w'"
proof -
  from assms(2) have h: "h < length (states w)"
    by (simp add: book_def split: if_splits)
  show ?thesis
  proof (cases "states w ! h")
    case (CancelledState i c')
    with wf_context_of [OF assms(1) h, of c'] have c: "c' < length (contexts w)" by simp
    from assms(1) have t: "list_all (\<lambda>t. captured_context t < length (contexts w))
        (timers w @ [\<lparr>due = now w + BOOKING_DELAY, captured_id = i, captured_context = c'\<rparr>])"
      using c by (simp add: well_formed_def)
    from assms(2) h CancelledState show ?thesis
      by (auto simp: book_CancelledState intro!: wf_install [OF assms(1) c _ t, of PendingState])
  next
    case (OpenState c')
    with wf_context_of [OF assms(1) h, of c'] have c: "c' < length (contexts w)" by simp
    from assms(1) have t: "list_all (\<lambda>t. captured_context t < length (contexts w))
        (timers w @ [\<lparr>due = now w + BOOKING_DELAY,
           captured_id = Num (random_seq w (random_calls w) * 100), captured_context = c'\<rparr>])"
      using c by (simp add: well_formed_def)
    from assms(2) h OpenState show ?thesis
      by (auto simp: book_OpenState intro!: wf_install [OF assms(1) c _ t, of PendingState])
  next
    case (BookedState i c')
    with h assms show ?thesis by (auto simp: book_BookedState)
  next
    case PendingState
    with h assms show ?thesis by (auto simp: book_PendingState)
  qed
qed

lemma wf_cancel:
  assumes "well_formed w" "cancel h w = Some (m, w')"
  shows "well_formed w'"
proof -
  from assms(2) have h: "h < length (states w)"
    by (simp add: cancel_def split: if_splits)
  show ?thesis
  proof (cases "states w ! h")
    case (CancelledState i c')
    with h assms show ?thesis by (auto simp: cancel_CancelledState)
  next
    case (OpenState c')
    with h assms show ?thesis by (auto simp: cancel_OpenState)
  next
    case (BookedState i c')
    with wf_context_of [OF assms(1) h, of c'] have c: "c' < length (contexts w)" by simp
    from assms(1) have t: "list_all (\<lambda>t. captured_context t < length (contexts w)) (timers w)"
      by (simp add: well_formed_def)
    from assms(2) h BookedState c show ?thesis
      by (auto simp: cancel_BookedState
            intro!: wf_install [OF assms(1) c _ t, of "CancelledState i c'"])
  next
    case PendingState
    with h assms show ?thesis by (auto simp: cancel_PendingState)
  qed
qed

lemma wf_fire: "well_formed w \<Longrightarrow> well_formed (fire w)"
proof (cases "timers w")
  case Nil
  assume "well_formed w"
  with Nil show ?thesis by (simp add: fire_def)
next
  case (Cons t ts)
  assume w: "well_formed w"
  show ?thesis
  proof (cases "due t \<le> now w")
    case True
    from w Cons have c: "captured_context t < length (contexts w)"
      and t: "list_all (\<lambda>t. captured_context t < length (contexts w)) ts"
      by (simp_all add: well_formed_def)
    from c show ?thesis
      by (auto simp: fire_due [OF Cons True]
            intro!: wf_install [OF w c _ t, of "BookedState Undefined (captured_context t)"])
  next
    case False
    with Cons w show ?thesis by (simp add: fire_def)
  qed
qed

lemma wf_advance: "well_formed w \<Longrightarrow> well_formed (advance d w)"
  by (simp add: well_formed_def advance_def)

lemma wf_exec:
  assumes "well_formed w" "exec toStr c e w = Some w'"
  shows "well_formed w'"
proof (cases e)
  case Book
  with assms show ?thesis
    by (auto split: option.splits intro: wf_book)
next
  case Cancel
  with assms show ?thesis
    by (auto split: option.splits intro: wf_cancel)
next
  case (Advance d)
  with assms show ?thesis by (auto simp: wf_advance)
next
  case Fire
  with assms show ?thesis by (auto simp: wf_fire)
qed

lemma wf_run:
  assumes "well_formed w" "run toStr c es w = Some w'"
  shows "well_formed w'"
  using assms
  by (induction es arbitrary: w) (auto split: option.splits intro: wf_exec)

subsection \<open>The identifiers that pending callbacks carry\<close>

lemma untimed_carried: "untimed c w \<Longrightarrow> carried c d w"
  by (auto simp: untimed_def carried_def list_all_iff)

lemma carried_grow:
  assumes "carried c d w" "timers w' = timers w" "set (states w) \<subseteq> set (states w')"
  shows "carried c d w'"
  using assms by (auto simp: carried_def list_all_iff)

lemma book_carried:
  assumes "ok c w" "carried c d w" "\<not> isOpen (states w ! h)" "book toStr h w = Some (m, w')"
  shows "carried c d w' \<and> random_seq w' = random_seq w"
proof -
  from assms(4) have h: "h < length (states w)"
    by (simp add: book_def split: if_splits)
  show ?thesis
  proof (cases "states w ! h")
    case (CancelledState i c')
    from h CancelledState have "CancelledState i c' \<in> set (states w)"
      by (metis nth_mem)
    with h assms CancelledState show ?thesis
      by (auto simp: book_CancelledState carried_def list_all_iff)
  next
    case (OpenState c')
    with assms(3) show ?thesis by (simp add: isOpen_def)
  next
    case (BookedState i c')
    with h assms show ?thesis by (auto simp: book_BookedState)
  next
    case PendingState
    with h assms show ?thesis by (auto simp: book_PendingState)
  qed
qed

lemma cancel_carried:
  assumes "carried c d w" "cancel h w = Some (m, w')"
  shows "carried c d w' \<and> random_seq w' = random_seq w"
proof -
  from assms(2) have h: "h < length (states w)"
    by (simp add: cancel_def split: if_splits)
  show ?thesis
  proof (cases "states w ! h")
    case (CancelledState i c')
    with h assms show ?thesis by (auto simp: cancel_CancelledState)
  next
    case (OpenState c')
    with h assms show ?thesis by (auto simp: cancel_OpenState)
  next
    case (BookedState i c')
    with h assms show ?thesis
      by (auto simp: cancel_BookedState carried_def list_all_iff)
  next
    case PendingState
    with h assms show ?thesis by (auto simp: cancel_PendingState)
  qed
qed

lemma fire_carried:
  assumes "carried c d w"
  shows "carried c d (fire w) \<and> random_seq (fire w) = random_seq w"
  using assms
  by (auto simp: fire_def model_defs carried_def list_all_iff split: list.splits)

lemma exec_carried:
  assumes "ok c w" "\<not> isOpen (states w ! (contexts w ! c))" "carried c d w"
    "exec toStr c e w = Some w'"
  shows "carried c d w'"
proof (cases e)
  case Book
  with assms obtain m where "book toStr (contexts w ! c) w = Some (m, w')"
    by (auto simp: ok_current)
  from book_carried [OF assms(1,3,2) this] show ?thesis by simp
next
  case Cancel
  with assms obtain m where "cancel (contexts w ! c) w = Some (m, w')"
    by (auto simp: ok_current)
  from cancel_carried [OF assms(3) this] show ?thesis by simp
next
  case (Advance d')
  with assms show ?thesis by (auto simp: advance_def carried_def)
next
  case Fire
  with assms fire_carried [OF assms(3)] show ?thesis by auto
qed

lemma run_carried:
  assumes "ok c w" "\<not> isOpen (states w ! (contexts w ! c))" "carried c d w"
    "run toStr c es w = Some w'"
  shows "carried c d w'"
  using assms
proof (induction es arbitrary: w)
  case Nil
  then show ?case by simp
next
  case (Cons e es)
  from exec_total [OF Cons.prems(1)] obtain w1 where
    e: "exec toStr c e w = Some w1" and o: "ok c w1" by blast
  from exec_closed [OF Cons.prems(1,2) e] have c1: "\<not> isOpen (states w1 ! (contexts w1 ! c))"
    by simp
  from exec_carried [OF Cons.prems(1,2,3) e] have k: "carried c d w1" .
  from Cons.prems(4) e have "run toStr c es w1 = Some w'" by simp
  from Cons.IH [OF o c1 k this] show ?case .
qed

text \<open>The phase in which the constructor's OpenState is still current.\<close>

lemma exec_untimed:
  assumes "ok c w" "states w ! (contexts w ! c) = OpenState c" "untimed c w"
    "exec toStr c e w = Some w'"
  shows "states w' ! (contexts w' ! c) = OpenState c \<and> untimed c w' \<and>
           random_calls w' = random_calls w \<and> random_seq w' = random_seq w
         \<or> \<not> isOpen (states w' ! (contexts w' ! c)) \<and>
           carried c (Num (random_seq w (random_calls w) * 100)) w'"
proof (cases e)
  case Book
  with assms obtain m where b: "book toStr (contexts w ! c) w = Some (m, w')"
    by (auto simp: ok_current)
  from assms(1) have h: "contexts w ! c < length (states w)" and c: "c < length (contexts w)"
    by (simp_all add: ok_def)
  from b have w': "w' = w\<lparr>states := states w @ [PendingState],
         contexts := (contexts w)[c := length (states w)],
         timers := timers w @ [\<lparr>due = now w + BOOKING_DELAY,
           captured_id = Num (random_seq w (random_calls w) * 100), captured_context = c\<rparr>],
         random_calls := random_calls w + 1\<rparr>"
    by (simp add: book_OpenState [OF h assms(2)])
  from c have "\<not> isOpen (states w' ! (contexts w' ! c))"
    by (simp add: w' isOpen_def)
  moreover from assms(3) have "carried c (Num (random_seq w (random_calls w) * 100)) w'"
    by (simp add: w' carried_def untimed_def list_all_iff)
  ultimately show ?thesis by blast
next
  case Cancel
  with assms obtain m where b: "cancel (contexts w ! c) w = Some (m, w')"
    by (auto simp: ok_current)
  from assms(1) have h: "contexts w ! c < length (states w)" by (simp add: ok_def)
  from b assms(2,3) show ?thesis
    by (auto simp: cancel_OpenState [OF h assms(2)])
next
  case (Advance d')
  with assms show ?thesis by (auto simp: advance_def untimed_def)
next
  case Fire
  from assms(1) have h: "contexts w ! c < length (states w)" and c: "c < length (contexts w)"
    by (simp_all add: ok_def)
  from Fire assms h c show ?thesis
    by (auto simp: fire_def model_defs untimed_def nth_append nth_upd split: list.splits)
qed

lemma run_untimed:
  assumes "ok c w" "states w ! (contexts w ! c) = OpenState c" "untimed c w"
    "run toStr c es w = Some w'"
  shows "carried c (Num (random_seq w (random_calls w) * 100)) w'"
  using assms
proof (induction es arbitrary: w)
  case Nil
  then show ?case by (simp add: untimed_carried)
next
  case (Cons e es)
  from exec_total [OF Cons.prems(1)] obtain w1 where
    e: "exec toStr c e w = Some w1" and o: "ok c w1" by blast
  from Cons.prems(4) e have r: "run toStr c es w1 = Some w'" by simp
  from exec_untimed [OF Cons.prems(1,2,3) e] consider
    (stay) "states w1 ! (contexts w1 ! c) = OpenState c" "untimed c w1"
           "random_calls w1 = random_calls w" "random_seq w1 = random_seq w"
  | (go) "\<not> isOpen (states w1 ! (contexts w1 ! c))"
         "carried c (Num (random_seq w (random_calls w) * 100)) w1"
    by blast
  then show ?case
  proof cases
    case stay
    from Cons.IH [OF o stay(1,2) r] stay(3,4) show ?thesis by simp
  next
    case go
    from run_carried [OF o go r] show ?thesis .
  qed
qed

lemma untimed_new_Context:
  assumes "well_formed w0" "new_Context w0 = (c, w)"
  shows "untimed c w \<and> random_seq w = random_seq w0 \<and> random_calls w = random_calls w0"
  using assms
  by (fastforce simp: new_Context_eq well_formed_def untimed_def list_all_iff)

subsection \<open>The reachable worlds, evaluated\<close>

lemma after_new_Context_eq:
  "after_new_Context =
     \<lparr>states = [OpenState 0], contexts = [0], timers = [], now = 0,
      random_seq = \<lambda>n. 42 / 100, random_calls = 0\<rparr>"
  by (simp add: after_new_Context_def program_start_def new_Context_eq start_def)

lemma new_Context_program_start: "new_Context program_start = (0, after_new_Context)"
  by (simp add: after_new_Context_def program_start_def new_Context_eq start_def)

lemma after_first_book_eq:
  "after_first_book =
     \<lparr>states = [OpenState 0, PendingState], contexts = [1],
      timers = [\<lparr>due = 10000, captured_id = Num 42, captured_context = 0\<rparr>], now = 0,
      random_seq = \<lambda>n. 42 / 100, random_calls = 1\<rparr>"
  by (simp add: after_first_book_def after_new_Context_eq model_defs BOOKING_DELAY_def Let_def)

lemma cancelled_world_eq:
  "cancelled_world =
     \<lparr>states = [OpenState 0, CancelledState (Num 7) 0], contexts = [1], timers = [], now = 5,
      random_seq = \<lambda>n. 42 / 100, random_calls = 0\<rparr>"
  by (simp add: cancelled_world_def after_new_Context_eq model_defs advance_def)

lemma superseded_eq:
  "superseded =
     \<lparr>states = [OpenState 0, PendingState, CancelledState (Num 42) 0], contexts = [2],
      timers = [\<lparr>due = 10000, captured_id = Num 42, captured_context = 0\<rparr>], now = 10000,
      random_seq = \<lambda>n. 42 / 100, random_calls = 1\<rparr>"
  by (simp add: superseded_def after_first_book_eq model_defs advance_def)

section \<open>The claims\<close>

text \<open>
  C1. The claim: the identifier that \<open>OpenState.book()\<close> allocates is carried unchanged
  through Pending, Booked, Cancelled and the rebooked Pending. The code loses it: the
  constructor of \<open>BookedState\<close> never assigns \<open>this.id\<close>. On the fresh context with
  identifier 42, the pending timer carries 42, the \<open>BookedState\<close> that the timer installs
  holds \<open>undefined\<close>, so does the \<open>CancelledState\<close> built by \<open>cancel()\<close>, the rebooking
  reports \<open>Rebooked using old ID: undefined\<close>, and the timer of the rebooked
  \<open>PendingState\<close> carries \<open>undefined\<close>.
\<close>

theorem BookedState_forgets_id:
  "map_option timers (run toStr 0 [Book] after_new_Context) =
     Some [\<lparr>due = 10000, captured_id = Num 42, captured_context = 0\<rparr>] \<and>
   map_option (active 0) (run toStr 0 [Book, Advance 10000, Fire] after_new_Context) =
     Some (Some (BookedState Undefined 0)) \<and>
   map_option (active 0) (run toStr 0 [Book, Advance 10000, Fire, Cancel] after_new_Context) =
     Some (Some (CancelledState Undefined 0)) \<and>
   Option.bind (run toStr 0 [Book, Advance 10000, Fire, Cancel] after_new_Context)
       (\<lambda>w. map_option fst (book toStr 3 w)) =
     Some ''Rebooked using old ID: undefined'' \<and>
   map_option timers (run toStr 0 [Book, Advance 10000, Fire, Cancel, Book] after_new_Context) =
     Some [\<lparr>due = 20000, captured_id = Undefined, captured_context = 0\<rparr>]"
  by (simp add: after_new_Context_eq run_defs)

text \<open>
  C2, as stated, fails: the callback has no identity guard. In \<open>superseded\<close> the pending
  state (object 1) has been replaced by a \<open>CancelledState\<close> (object 2) before the timer
  fires; the callback still runs and replaces the newer state by a \<open>BookedState\<close>.
\<close>

theorem stale_callback_overwrites_newer_state:
  "states superseded ! 1 = PendingState \<and>
   current 0 superseded = Some 2 \<and>
   active 0 superseded = Some (CancelledState (Num 42) 0) \<and>
   current 0 (fire superseded) = Some 3 \<and>
   active 0 (fire superseded) = Some (BookedState Undefined 0) \<and>
   fire superseded \<noteq> superseded"
  by (simp add: superseded_eq run_defs)

text \<open>
  C2, amended: whenever the callback of a \<open>PendingState\<close> fires, it builds a new
  \<open>BookedState\<close> and installs it through \<open>setCurrentState\<close> as the current state of the
  context it captured, whatever the current state of that context is at that moment, and
  the timer leaves the queue.
\<close>

theorem callback_installs_unconditionally:
  assumes "timers w = t # ts" and "due t \<le> now w"
    and "captured_context t < length (contexts w)"
  shows "current (captured_context t) (fire w) = Some (length (states w)) \<and>
         (\<exists>i. states (fire w) = states w @ [BookedState i (captured_context t)] \<and>
              active (captured_context t) (fire w) = Some (BookedState i (captured_context t))) \<and>
         timers (fire w) = ts"
  using assms by (simp add: fire_due current_def active_def)

theorem callback_installs_unconditionally_witness:
  "timers superseded = [\<lparr>due = 10000, captured_id = Num 42, captured_context = 0\<rparr>] \<and>
   10000 \<le> now superseded \<and> 0 < length (contexts superseded) \<and>
   active 0 superseded = Some (CancelledState (Num 42) 0) \<and>
   current 0 (fire superseded) = Some (length (states superseded)) \<and>
   (\<exists>i. states (fire superseded) = states superseded @ [BookedState i 0] \<and>
        active 0 (fire superseded) = Some (BookedState i 0)) \<and>
   timers (fire superseded) = []"
proof -
  have a: "timers superseded =
      \<lparr>due = 10000, captured_id = Num 42, captured_context = 0\<rparr> # []"
    by (simp add: superseded_eq)
  have b: "due \<lparr>due = 10000, captured_id = Num 42, captured_context = 0\<rparr> \<le> now superseded"
    by (simp add: superseded_eq)
  have c: "captured_context \<lparr>due = 10000, captured_id = Num 42, captured_context = 0\<rparr>
      < length (contexts superseded)"
    by (simp add: superseded_eq)
  have d: "active 0 superseded = Some (CancelledState (Num 42) 0)"
    by (simp add: superseded_eq active_def current_def)
  from callback_installs_unconditionally [OF a b c] a b c d show ?thesis
    by simp
qed

text \<open>
  C3, as stated, fails: class \<open>Context\<close> declares neither \<open>requestAction\<close> nor
  \<open>requestCancel\<close>.
\<close>

theorem Context_has_no_request_methods:
  "''requestAction'' \<notin> set Context_methods \<and> ''requestCancel'' \<notin> set Context_methods"
  by (simp add: Context_methods_def)

text \<open>
  C3, amended: the only method of \<open>Context\<close> is \<open>setCurrentState\<close>, which makes its argument
  the current state of the context before it returns and changes nothing else. Nothing
  is delegated by the context: \<open>book()\<close> and \<open>cancel()\<close> are methods of the state objects,
  and when such a call changes a current state at all, it has built exactly one new state
  object and installed it, through \<open>setCurrentState\<close> on the context stored in the called
  object, by the time the call returns.
\<close>

theorem Context_interface:
  assumes "c < length (contexts w)" and "h < length (states w)"
  shows "Context_methods = [''setCurrentState''] \<and>
         setCurrentState c s w = w\<lparr>contexts := (contexts w)[c := s]\<rparr> \<and>
         current c (setCurrentState c s w) = Some s \<and>
         (\<exists>m w'. book toStr h w = Some (m, w') \<and>
            (contexts w' = contexts w \<and> states w' = states w \<or>
             (\<exists>c' s'. context_of (states w ! h) = Some c' \<and> states w' = states w @ [s'] \<and>
                contexts w' = contexts (setCurrentState c' (length (states w)) w)))) \<and>
         (\<exists>m w'. cancel h w = Some (m, w') \<and>
            (contexts w' = contexts w \<and> states w' = states w \<or>
             (\<exists>c' s'. context_of (states w ! h) = Some c' \<and> states w' = states w @ [s'] \<and>
                contexts w' = contexts (setCurrentState c' (length (states w)) w))))"
proof -
  have "\<exists>m w'. book toStr h w = Some (m, w') \<and>
            (contexts w' = contexts w \<and> states w' = states w \<or>
             (\<exists>c' s'. context_of (states w ! h) = Some c' \<and> states w' = states w @ [s'] \<and>
                contexts w' = contexts (setCurrentState c' (length (states w)) w)))"
    using assms(2)
    by (cases "states w ! h")
      (auto simp: book_CancelledState book_OpenState book_BookedState book_PendingState
         setCurrentState_def)
  moreover have "\<exists>m w'. cancel h w = Some (m, w') \<and>
            (contexts w' = contexts w \<and> states w' = states w \<or>
             (\<exists>c' s'. context_of (states w ! h) = Some c' \<and> states w' = states w @ [s'] \<and>
                contexts w' = contexts (setCurrentState c' (length (states w)) w)))"
    using assms(2)
    by (cases "states w ! h")
      (auto simp: cancel_CancelledState cancel_OpenState cancel_BookedState cancel_PendingState
         setCurrentState_def)
  ultimately show ?thesis using assms(1)
    by (simp add: Context_methods_def setCurrentState_def current_def)
qed

theorem Context_interface_witness:
  "0 < length (contexts after_first_book) \<and> 0 < length (states after_first_book) \<and>
   current 0 after_first_book = Some 1 \<and>
   current 0 (setCurrentState 0 0 after_first_book) = Some 0 \<and>
   (\<exists>m w'. book (\<lambda>x. ''42'') 0 after_first_book = Some (m, w') \<and>
      states w' = [OpenState 0, PendingState, PendingState] \<and> contexts w' = [2]) \<and>
   (\<exists>m w'. cancel 0 after_first_book = Some (m, w') \<and>
      states w' = [OpenState 0, PendingState] \<and> contexts w' = [1])"
proof -
  have a: "0 < length (contexts after_first_book)"
    by (simp add: after_first_book_eq)
  have b: "0 < length (states after_first_book)"
    by (simp add: after_first_book_eq)
  have c: "current 0 after_first_book = Some 1"
    by (simp add: after_first_book_eq current_def)
  from Context_interface [OF a b, of 0 "\<lambda>x. ''42''"]
  have s: "current 0 (setCurrentState 0 0 after_first_book) = Some 0"
    by blast
  have "\<exists>m w'. book (\<lambda>x. ''42'') 0 after_first_book = Some (m, w') \<and>
      states w' = [OpenState 0, PendingState, PendingState] \<and> contexts w' = [2]"
    by (simp add: after_first_book_eq run_defs)
  moreover have "\<exists>m w'. cancel 0 after_first_book = Some (m, w') \<and>
      states w' = [OpenState 0, PendingState] \<and> contexts w' = [1]"
    by (simp add: after_first_book_eq run_defs)
  ultimately show ?thesis using a b c s by blast
qed

text \<open>
  C4. The claim: the timer scheduled by the construction of a \<open>PendingState\<close> installs,
  after the fixed delay and with no call, a new \<open>BookedState\<close> carrying the same
  identifier. The code schedules the timer with the identifier 42, does nothing before
  the delay has passed, and at the delay installs a new \<open>BookedState\<close> through
  \<open>setCurrentState\<close>; but the object installed holds \<open>undefined\<close>, not 42, because the
  constructor of \<open>BookedState\<close> never assigns \<open>this.id\<close>.
\<close>

theorem timer_installs_BookedState_without_id:
  "timers after_first_book = [\<lparr>due = 10000, captured_id = Num 42, captured_context = 0\<rparr>] \<and>
   active 0 after_first_book = Some PendingState \<and>
   fire (advance 9999 after_first_book) = advance 9999 after_first_book \<and>
   active 0 (fire (advance 10000 after_first_book)) = Some (BookedState Undefined 0) \<and>
   timers (fire (advance 10000 after_first_book)) = []"
  by (simp add: after_first_book_eq run_defs)

text \<open>
  C5. When the active state of a context is an \<open>OpenState\<close>, \<open>book()\<close> draws a new
  identifier (\<open>Math.random() * 100\<close>), constructs a \<open>PendingState\<close> with it, whose
  construction schedules the completion timer carrying that identifier, makes the new
  object the current state of the context, and returns the message
  \<open>Event booked with id: \<close> followed by the identifier.
\<close>

theorem OpenState_book_installs_Pending:
  assumes "current c w = Some h" and "h < length (states w)" and "states w ! h = OpenState c"
  shows "\<exists>w'. book toStr h w =
             Some (''Event booked with id: '' @ toStr (random_seq w (random_calls w) * 100), w') \<and>
           random_calls w' = random_calls w + 1 \<and>
           states w' = states w @ [PendingState] \<and>
           timers w' = timers w @ [\<lparr>due = now w + BOOKING_DELAY,
             captured_id = Num (random_seq w (random_calls w) * 100), captured_context = c\<rparr>] \<and>
           current c w' = Some (length (states w)) \<and>
           active c w' = Some PendingState \<and>
           now w' = now w"
proof -
  from assms(1) have c: "c < length (contexts w)"
    by (simp add: current_def split: if_splits)
  then show ?thesis
    by (simp add: book_OpenState [OF assms(2,3)] current_def active_def)
qed

theorem OpenState_book_installs_Pending_witness:
  "current 0 after_new_Context = Some 0 \<and> 0 < length (states after_new_Context) \<and>
   states after_new_Context ! 0 = OpenState 0 \<and>
   (\<exists>w'. book (\<lambda>x. ''42'') 0 after_new_Context = Some (''Event booked with id: 42'', w') \<and>
      random_calls w' = 1 \<and>
      states w' = [OpenState 0, PendingState] \<and>
      timers w' = [\<lparr>due = 10000, captured_id = Num 42, captured_context = 0\<rparr>] \<and>
      current 0 w' = Some 1 \<and>
      active 0 w' = Some PendingState \<and>
      now w' = 0)"
proof -
  have a: "current 0 after_new_Context = Some 0"
    by (simp add: after_new_Context_eq current_def)
  have b: "0 < length (states after_new_Context)"
    by (simp add: after_new_Context_eq)
  have c: "states after_new_Context ! 0 = OpenState 0"
    by (simp add: after_new_Context_eq)
  from OpenState_book_installs_Pending [OF a b c, of "\<lambda>x. ''42''"] a b c show ?thesis
    by (simp add: after_new_Context_eq BOOKING_DELAY_def)
qed

text \<open>
  C6. When the active state of a context is a \<open>PendingState\<close>, \<open>book()\<close> and \<open>cancel()\<close>
  return the message asking to wait and leave the whole world as it was: the current
  state of every context, the queue of timers with their due times, and the clock.
\<close>

theorem PendingState_calls_change_nothing:
  assumes "current c w = Some h" and "h < length (states w)" and "states w ! h = PendingState"
  shows "book toStr h w =
           Some (''Please wait for booking to load before performing an action!'', w) \<and>
         cancel h w =
           Some (''Please wait for booking to load before performing an action!'', w)"
  using assms by (simp add: book_PendingState cancel_PendingState)

theorem PendingState_calls_change_nothing_witness:
  "current 0 after_first_book = Some 1 \<and> 1 < length (states after_first_book) \<and>
   states after_first_book ! 1 = PendingState \<and>
   book (\<lambda>x. ''42'') 1 after_first_book =
     Some (''Please wait for booking to load before performing an action!'', after_first_book) \<and>
   cancel 1 after_first_book =
     Some (''Please wait for booking to load before performing an action!'', after_first_book) \<and>
   timers after_first_book = [\<lparr>due = 10000, captured_id = Num 42, captured_context = 0\<rparr>]"
proof -
  have a: "current 0 after_first_book = Some 1"
    by (simp add: after_first_book_eq current_def)
  have b: "1 < length (states after_first_book)"
    by (simp add: after_first_book_eq)
  have c: "states after_first_book ! 1 = PendingState"
    by (simp add: after_first_book_eq)
  have d: "timers after_first_book = [\<lparr>due = 10000, captured_id = Num 42, captured_context = 0\<rparr>]"
    by (simp add: after_first_book_eq)
  from PendingState_calls_change_nothing [OF a b c, of "\<lambda>x. ''42''"] a b c d show ?thesis
    by simp
qed

text \<open>
  C7. When the active state of a context is a \<open>CancelledState\<close>, \<open>book()\<close> constructs a new
  \<open>PendingState\<close> from the stored \<open>oldID\<close>, which schedules a new completion timer carrying
  that identifier, makes it the current state, draws no random number and returns
  \<open>Rebooked using old ID: \<close> followed by the stored identifier; \<open>cancel()\<close> changes
  nothing and returns \<open>You've already cancelled this!\<close>.
\<close>

theorem CancelledState_book_rebooks_with_stored_id:
  assumes "current c w = Some h" and "h < length (states w)"
    and "states w ! h = CancelledState oldID c"
  shows "cancel h w = Some (''You've already cancelled this!'', w) \<and>
         (\<exists>w'. book toStr h w = Some (''Rebooked using old ID: '' @ template toStr oldID, w') \<and>
            states w' = states w @ [PendingState] \<and>
            timers w' = timers w @
              [\<lparr>due = now w + BOOKING_DELAY, captured_id = oldID, captured_context = c\<rparr>] \<and>
            current c w' = Some (length (states w)) \<and>
            active c w' = Some PendingState \<and>
            random_calls w' = random_calls w \<and>
            now w' = now w)"
proof -
  from assms(1) have c: "c < length (contexts w)"
    by (simp add: current_def split: if_splits)
  then show ?thesis
    by (simp add: book_CancelledState [OF assms(2,3)] cancel_CancelledState [OF assms(2,3)]
          current_def active_def)
qed

theorem CancelledState_book_rebooks_with_stored_id_witness:
  "current 0 cancelled_world = Some 1 \<and> 1 < length (states cancelled_world) \<and>
   states cancelled_world ! 1 = CancelledState (Num 7) 0 \<and>
   cancel 1 cancelled_world = Some (''You've already cancelled this!'', cancelled_world) \<and>
   (\<exists>w'. book (\<lambda>x. ''7'') 1 cancelled_world = Some (''Rebooked using old ID: 7'', w') \<and>
      states w' = [OpenState 0, CancelledState (Num 7) 0, PendingState] \<and>
      timers w' = [\<lparr>due = 10005, captured_id = Num 7, captured_context = 0\<rparr>] \<and>
      current 0 w' = Some 2 \<and>
      active 0 w' = Some PendingState \<and>
      random_calls w' = 0 \<and>
      now w' = 5)"
proof -
  have a: "current 0 cancelled_world = Some 1"
    by (simp add: cancelled_world_eq current_def)
  have b: "1 < length (states cancelled_world)"
    by (simp add: cancelled_world_eq)
  have c: "states cancelled_world ! 1 = CancelledState (Num 7) 0"
    by (simp add: cancelled_world_eq)
  from CancelledState_book_rebooks_with_stored_id [OF a b c, of "\<lambda>x. ''7''"] a b c
  show ?thesis
    by (simp add: cancelled_world_eq BOOKING_DELAY_def numeral_2_eq_2)
qed

text \<open>
  C8, as stated, fails: the delay is no parameter of the constructor. Constructed at
  time 0 with identifier 1 or with identifier 99, a \<open>PendingState\<close> has its timer due at
  10000, the constant \<open>BOOKING_DELAY\<close>.
\<close>

theorem delay_ignores_constructor_arguments:
  "map due (timers (snd (new_PendingState (Num 1) 0 after_new_Context))) = [10000] \<and>
   map due (timers (snd (new_PendingState (Num 99) 0 after_new_Context))) = [10000] \<and>
   now after_new_Context = 0 \<and> BOOKING_DELAY = 10000"
  by (simp add: after_new_Context_eq run_defs)

text \<open>
  C8, amended: the delay between the construction of a \<open>PendingState\<close> and its completion
  is the constant \<open>BOOKING_DELAY = 10000\<close> of the class, for every identifier, context and
  world; the constructor takes the identifier and the context and nothing else.
\<close>

theorem delay_is_constant:
  "timers (snd (new_PendingState i c w)) =
     timers w @ [\<lparr>due = now w + 10000, captured_id = i, captured_context = c\<rparr>] \<and>
   BOOKING_DELAY = 10000"
  by (simp add: model_defs BOOKING_DELAY_def)

text \<open>
  C9. In every execution of a context created by \<open>new Context()\<close> in a well-formed world,
  made of calls of \<open>book()\<close> and \<open>cancel()\<close> on its current state, passing time and timer
  callbacks, no call fails: every step finds the object it is called on, the world stays
  well-formed, so no reference is ever dangling, and on every state object \<open>book()\<close> and
  \<open>cancel()\<close> return a message. The actions that are illegal in a state (cancelling when
  nothing is booked, booking when booked, booking or cancelling while pending,
  cancelling when cancelled) change nothing and return the explanatory message of that
  state.
\<close>

theorem no_call_fails:
  assumes "well_formed w0" and "new_Context w0 = (c, w)"
  shows "\<exists>w'. run toStr c es w = Some w' \<and> well_formed w' \<and>
           (\<exists>h. current c w' = Some h \<and> h < length (states w')) \<and>
           (\<forall>h < length (states w').
              (\<exists>m w''. book toStr h w' = Some (m, w'')) \<and>
              (\<exists>m w''. cancel h w' = Some (m, w'')) \<and>
              (case states w' ! h of
                 CancelledState oldID c' \<Rightarrow>
                   cancel h w' = Some (''You've already cancelled this!'', w')
               | OpenState c' \<Rightarrow>
                   cancel h w' = Some (''You haven't booked anything yet'', w')
               | BookedState i c' \<Rightarrow>
                   book toStr h w' = Some (''You've already booked this event!'', w')
               | PendingState \<Rightarrow>
                   book toStr h w' =
                     Some (''Please wait for booking to load before performing an action!'', w') \<and>
                   cancel h w' =
                     Some (''Please wait for booking to load before performing an action!'', w')))"
proof -
  from run_total [OF ok_new_Context [OF assms(2)]] obtain w' where
    r: "run toStr c es w = Some w'" and o: "ok c w'" by blast
  from wf_run [OF wf_new_Context [OF assms] r] have f: "well_formed w'" .
  from o have "\<exists>h. current c w' = Some h \<and> h < length (states w')"
    by (simp add: ok_current ok_def)
  moreover have "\<forall>h < length (states w').
      (\<exists>m w''. book toStr h w' = Some (m, w'')) \<and>
      (\<exists>m w''. cancel h w' = Some (m, w'')) \<and>
      (case states w' ! h of
         CancelledState oldID c' \<Rightarrow>
           cancel h w' = Some (''You've already cancelled this!'', w')
       | OpenState c' \<Rightarrow>
           cancel h w' = Some (''You haven't booked anything yet'', w')
       | BookedState i c' \<Rightarrow>
           book toStr h w' = Some (''You've already booked this event!'', w')
       | PendingState \<Rightarrow>
           book toStr h w' =
             Some (''Please wait for booking to load before performing an action!'', w') \<and>
           cancel h w' =
             Some (''Please wait for booking to load before performing an action!'', w'))"
  proof (intro allI impI conjI)
    fix h assume h: "h < length (states w')"
    show "\<exists>m w''. book toStr h w' = Some (m, w'')" by (rule book_total [OF h])
    show "\<exists>m w''. cancel h w' = Some (m, w'')" by (rule cancel_total [OF h])
    show "case states w' ! h of
         CancelledState oldID c' \<Rightarrow>
           cancel h w' = Some (''You've already cancelled this!'', w')
       | OpenState c' \<Rightarrow>
           cancel h w' = Some (''You haven't booked anything yet'', w')
       | BookedState i c' \<Rightarrow>
           book toStr h w' = Some (''You've already booked this event!'', w')
       | PendingState \<Rightarrow>
           book toStr h w' =
             Some (''Please wait for booking to load before performing an action!'', w') \<and>
           cancel h w' =
             Some (''Please wait for booking to load before performing an action!'', w')"
      using h
      by (cases "states w' ! h")
        (simp_all add: cancel_CancelledState cancel_OpenState book_BookedState
           book_PendingState cancel_PendingState)
  qed
  ultimately show ?thesis using r f by blast
qed

theorem no_call_fails_witness:
  "well_formed program_start \<and> (\<exists>w'. run (\<lambda>x. ''42'') 0 [Cancel, Book, Book, Cancel, Advance 10000, Fire, Book, Cancel, Cancel]
            after_new_Context = Some w' \<and>
     current 0 w' = Some 3 \<and> states w' ! 3 = CancelledState Undefined 0 \<and>
     cancel 3 w' = Some (''You've already cancelled this!'', w') \<and>
     states w' ! 0 = OpenState 0 \<and>
     cancel 0 w' = Some (''You haven't booked anything yet'', w'))"
proof -
  have p: "well_formed program_start"
    by (simp add: well_formed_def program_start_def start_def)
  from no_call_fails [OF p new_Context_program_start, of "\<lambda>x. ''42''"
      "[Cancel, Book, Book, Cancel, Advance 10000, Fire, Book, Cancel, Cancel]"]
  obtain w' where
    r: "run (\<lambda>x. ''42'') 0 [Cancel, Book, Book, Cancel, Advance 10000, Fire, Book, Cancel, Cancel]
          after_new_Context = Some w'"
    and a: "\<forall>h < length (states w'). 
              (case states w' ! h of
                 CancelledState oldID c' \<Rightarrow>
                   cancel h w' = Some (''You've already cancelled this!'', w')
               | OpenState c' \<Rightarrow>
                   cancel h w' = Some (''You haven't booked anything yet'', w')
               | BookedState i c' \<Rightarrow>
                   book (\<lambda>x. ''42'') h w' = Some (''You've already booked this event!'', w')
               | PendingState \<Rightarrow>
                   book (\<lambda>x. ''42'') h w' =
                     Some (''Please wait for booking to load before performing an action!'', w') \<and>
                   cancel h w' =
                     Some (''Please wait for booking to load before performing an action!'', w'))"
    by blast
  from r have w': "w' = \<lparr>states = [OpenState 0, PendingState, BookedState Undefined 0,
      CancelledState Undefined 0], contexts = [3], timers = [], now = 10000,
      random_seq = \<lambda>n. 42 / 100, random_calls = 1\<rparr>"
    by (auto simp: after_new_Context_eq run_defs numeral_3_eq_3)
  have s: "current 0 w' = Some 3" "states w' ! 3 = CancelledState Undefined 0"
      "states w' ! 0 = OpenState 0" "3 < length (states w')" "0 < length (states w')"
    by (simp_all add: w' current_def)
  from a s(4) s(2) have c3: "cancel 3 w' = Some (''You've already cancelled this!'', w')"
    by fastforce
  from a s(5) s(3) have c0: "cancel 0 w' = Some (''You haven't booked anything yet'', w')"
    by fastforce
  from p r s c3 c0 show ?thesis by blast
qed

text \<open>
  C10, as stated, fails: not every reachable execution draws at most one identifier per
  context. After the first \<open>book()\<close> the \<open>OpenState\<close> object 0 still exists; a second
  \<open>book()\<close> on that object draws a second identifier and schedules a second timer for the
  same context, and the public \<open>setCurrentState\<close> can make an \<open>OpenState\<close> current again.
\<close>

theorem second_book_on_kept_OpenState_draws_again:
  "length (contexts after_first_book) = 1 \<and>
   current 0 after_first_book = Some 1 \<and>
   states after_first_book ! 0 = OpenState 0 \<and>
   random_calls after_first_book = 1 \<and>
   map_option (\<lambda>r. random_calls (snd r)) (book (\<lambda>x. ''42'') 0 after_first_book) = Some 2 \<and>
   map_option (\<lambda>r. map captured_context (timers (snd r)))
       (book (\<lambda>x. ''42'') 0 after_first_book) = Some [0, 0] \<and>
   open_active 0 (setCurrentState 0 0 after_first_book)"
  by (simp add: after_first_book_eq run_defs)

text \<open>
  C10, amended: in every execution of a context created by \<open>new Context()\<close> in which
  \<open>book()\<close> and \<open>cancel()\<close> are only called on the object that is the current state of the
  context at the time of the call, and \<open>setCurrentState\<close> is only called by the state
  objects and the timer callbacks (besides, time passes and timers fire): at most one
  random identifier is drawn; whenever the current state is an \<open>OpenState\<close>, it is still
  the object that the constructor installed and no identifier has been drawn; once the
  current state is not an \<open>OpenState\<close>, it never is one again and no further identifier is
  drawn; and, the starting world being well-formed, every callback queued for the context
  carries the one identifier drawn or the \<open>oldID\<close> stored in a \<open>CancelledState\<close> of the
  context.
\<close>

theorem fresh_id_at_most_once:
  assumes "new_Context w0 = (c, w)"
    and "run toStr c es1 w = Some w1" and "run toStr c es2 w1 = Some w2"
  shows "random_calls w2 \<le> random_calls w0 + 1 \<and>
         (open_active c w2 \<longrightarrow> current c w2 = current c w \<and> random_calls w2 = random_calls w0) \<and>
         (\<not> open_active c w1 \<longrightarrow> \<not> open_active c w2 \<and> random_calls w2 = random_calls w1) \<and>
         (well_formed w0 \<longrightarrow>
            (\<forall>t \<in> set (timers w2). captured_context t = c \<longrightarrow>
               captured_id t = Num (random_seq w0 (random_calls w0) * 100) \<or>
               CancelledState (captured_id t) c \<in> set (states w2)))"
proof -
  from assms(1) have o: "ok c w" by (rule ok_new_Context)
  from assms(1) have s: "states w ! (contexts w ! c) = OpenState c"
    and n: "random_calls w = random_calls w0"
    by (auto simp: new_Context_eq nth_append)
  from run_total [OF o, of toStr es1] assms(2) have o1: "ok c w1" by simp
  from run_total [OF o1, of toStr es2] assms(3) have o2: "ok c w2" by simp
  from assms(2,3) have r: "run toStr c (es1 @ es2) w = Some w2"
    by (simp add: run_append)
  from run_open [OF o s r] n o o2
  have "random_calls w2 \<le> random_calls w0 + 1"
    and "open_active c w2 \<longrightarrow> current c w2 = current c w \<and> random_calls w2 = random_calls w0"
    by (simp_all add: open_active_iff ok_current)
  moreover have "\<not> open_active c w1 \<longrightarrow> \<not> open_active c w2 \<and> random_calls w2 = random_calls w1"
  proof
    assume "\<not> open_active c w1"
    with o1 have "\<not> isOpen (states w1 ! (contexts w1 ! c))" by (simp add: open_active_iff)
    from run_closed [OF o1 this assms(3)] o2
    show "\<not> open_active c w2 \<and> random_calls w2 = random_calls w1"
      by (simp add: open_active_iff)
  qed
  moreover have "well_formed w0 \<longrightarrow>
      (\<forall>t \<in> set (timers w2). captured_context t = c \<longrightarrow>
         captured_id t = Num (random_seq w0 (random_calls w0) * 100) \<or>
         CancelledState (captured_id t) c \<in> set (states w2))"
  proof
    assume "well_formed w0"
    from untimed_new_Context [OF this assms(1)] have u: "untimed c w"
      and q: "random_seq w = random_seq w0" "random_calls w = random_calls w0"
      by simp_all
    from run_untimed [OF o s u r] q
    have "carried c (Num (random_seq w0 (random_calls w0) * 100)) w2" by simp
    then show "\<forall>t \<in> set (timers w2). captured_context t = c \<longrightarrow>
         captured_id t = Num (random_seq w0 (random_calls w0) * 100) \<or>
         CancelledState (captured_id t) c \<in> set (states w2)"
      by (auto simp: carried_def list_all_iff)
  qed
  ultimately show ?thesis by blast
qed

theorem fresh_id_at_most_once_witness:
  "\<exists>w1 w2. new_Context program_start = (0, after_new_Context) \<and>
     run (\<lambda>x. ''42'') 0 [Cancel, Book] after_new_Context = Some w1 \<and>
     run (\<lambda>x. ''42'') 0 [Book, Advance 10000, Fire, Cancel, Book, Book] w1 = Some w2 \<and>
     \<not> open_active 0 w1 \<and> \<not> open_active 0 w2 \<and>
     random_calls w1 = 1 \<and> random_calls w2 = 1 \<and> random_calls program_start = 0 \<and>
     well_formed program_start \<and>
     timers w1 = [\<lparr>due = 10000, captured_id = Num 42, captured_context = 0\<rparr>] \<and>
     random_seq program_start (random_calls program_start) * 100 = 42 \<and>
     map captured_context (timers w2) = [0] \<and>
     CancelledState (captured_id (hd (timers w2))) 0 \<in> set (states w2)"
proof -
  let ?w1 = "\<lparr>states = [OpenState 0, PendingState], contexts = [1],
      timers = [\<lparr>due = 10000, captured_id = Num 42, captured_context = 0\<rparr>], now = 0,
      random_seq = \<lambda>n. 42 / 100, random_calls = 1\<rparr>"
  let ?w2 = "\<lparr>states = [OpenState 0, PendingState, BookedState Undefined 0,
      CancelledState Undefined 0, PendingState], contexts = [4],
      timers = [\<lparr>due = 20000, captured_id = Undefined, captured_context = 0\<rparr>], now = 10000,
      random_seq = \<lambda>n. 42 / 100, random_calls = 1\<rparr>"
  have r1: "run (\<lambda>x. ''42'') 0 [Cancel, Book] after_new_Context = Some ?w1"
    by (simp add: after_new_Context_eq run_defs)
  have r2: "run (\<lambda>x. ''42'') 0 [Book, Advance 10000, Fire, Cancel, Book, Book] ?w1 = Some ?w2"
    by (simp add: run_defs)
  have n1: "\<not> open_active 0 ?w1"
    by (simp add: run_defs)
  have p: "random_calls program_start = 0" "well_formed program_start"
      "random_seq program_start (random_calls program_start) * 100 = 42"
    by (simp_all add: program_start_def start_def well_formed_def)
  have t: "timers ?w1 = [\<lparr>due = 10000, captured_id = Num 42, captured_context = 0\<rparr>]"
      "map captured_context (timers ?w2) = [0]"
    by simp_all
  have m: "hd (timers ?w2) \<in> set (timers ?w2)" "captured_context (hd (timers ?w2)) = 0"
      "captured_id (hd (timers ?w2)) \<noteq> Num 42"
    by simp_all
  from fresh_id_at_most_once [OF new_Context_program_start r1 r2] n1 p(2)
  have a: "\<not> open_active 0 ?w2 \<and> random_calls ?w2 = random_calls ?w1"
    and b: "\<forall>t \<in> set (timers ?w2). captured_context t = 0 \<longrightarrow>
         captured_id t = Num (random_seq program_start (random_calls program_start) * 100) \<or>
         CancelledState (captured_id t) 0 \<in> set (states ?w2)"
    by blast+
  from b m p(3) have c: "CancelledState (captured_id (hd (timers ?w2))) 0 \<in> set (states ?w2)"
    by (metis)
  from a c new_Context_program_start r1 r2 n1 p t show ?thesis
    by (intro exI [of _ ?w1] exI [of _ ?w2]) simp
qed

end
